theory Spec2Isabelle
  imports Main "HOL-Library.Sublist" "HOL-Library.AList_Mapping"
begin

section \<open>The lap relay of web.go: channels, tasks and their interleavings\<close>

text \<open>
  web.go wires six channels into one \<open>webServer\<close> value and runs on them two
  singleton goroutines (\<open>serviceTagChannel\<close>, \<open>serviceNotifyChannel\<close>), one goroutine
  per reader connection (\<open>handleLaps\<close>), one per display connection
  (\<open>handleNotify\<close>) and the main goroutine (\<open>StartWebServer\<close>).

  The embedding is a labelled transition system. Every goroutine is a program counter
  that names the statement it is about to execute (or is blocked in); the function
  \<open>step\<close> executes one statement of one goroutine, and returns \<open>None\<close> where Go
  would block (a send on a full channel, a receive on an empty one, a hand-off on an
  unbuffered channel whose partner is not waiting). Whatever the Go scheduler, the
  network and the storage collaborator decide is part of the label: which goroutine
  moves, whether an upgrade, a read, a write or a storage call succeeds, and in which
  order a \<open>range\<close> over the client map visits its keys.
\<close>

subsection \<open>Channels\<close>

text \<open>A channel made by \<open>make(chan T, n)\<close>: its buffered items, oldest first, and \<open>n\<close>.\<close>

record 'a chan =
  buf :: "'a list"
  cap :: nat

definition make_chan :: "nat \<Rightarrow> 'a chan" where
  "make_chan n = \<lparr>buf = [], cap = n\<rparr>"

text \<open>
  A buffered send completes only while fewer than \<open>cap\<close> items are buffered. On a
  channel of capacity 0 that is never: such a send completes only by handing the
  value to a goroutine that is waiting to receive it.
\<close>

definition chan_full :: "'a chan \<Rightarrow> bool" where
  "chan_full ch = (cap ch \<le> length (buf ch))"

definition chan_put :: "'a \<Rightarrow> 'a chan \<Rightarrow> 'a chan" where
  "chan_put x ch = ch\<lparr>buf := buf ch @ [x]\<rparr>"

definition chan_rest :: "'a chan \<Rightarrow> 'a chan" where
  "chan_rest ch = ch\<lparr>buf := tl (buf ch)\<rparr>"

subsection \<open>The data of web.go\<close>

text \<open>\<open>type notifyClient struct { send chan Notification }\<close> (lines 25-27).\<close>

record 'n notifyClient =
  send :: "'n chan"

text \<open>
  \<open>type webServer struct\<close> (lines 29-41). The field \<open>ds\<close> is never assigned or read
  and is left out. A \<open>*notifyClient\<close> is the address of the client, a natural number.
\<close>

record 'n webServer =
  tags :: "int chan"
  quitTags :: "bool chan"
  notify :: "'n chan"
  quitNotify :: "bool chan"
  register :: "nat chan"
  unregister :: "nat chan"

subsection \<open>strconv.Atoi\<close>

text \<open>
  Go's \<open>strconv.Atoi\<close> on a 64-bit platform: an optional sign, then at least one
  decimal digit and nothing else, and a value that fits \<open>int\<close>; anything else is an
  error (\<open>None\<close>).
\<close>

definition isDigit :: "char \<Rightarrow> bool" where
  "isDigit ch = (48 \<le> (of_char ch :: nat) \<and> (of_char ch :: nat) \<le> 57)"

definition digitsVal :: "string \<Rightarrow> int" where
  "digitsVal ds = foldl (\<lambda>n ch. n * 10 + (int (of_char ch) - 48)) 0 ds"

definition Atoi :: "string \<Rightarrow> int option" where
  "Atoi s =
     (case s of
        [] \<Rightarrow> None
      | c # cs \<Rightarrow>
          (let ds = (if c = CHR ''-'' \<or> c = CHR ''+'' then cs else s);
               n = (if c = CHR ''-'' then - digitsVal ds else digitsVal ds)
           in if ds = [] \<or> \<not> list_all isDigit ds then None
              else if n < - (2 ^ 63) \<or> 2 ^ 63 - 1 < n then None
              else Some n))"

subsection \<open>Program counters\<close>

text \<open>\<open>StartWebServer\<close> from line 265 on: inside \<open>ListenAndServe\<close>, blocked in the send
  of line 268, in the send of line 269, in the sleep of line 273, returned.\<close>

datatype main_pc = MServing | MQuitTags | MQuitNotify | MSleeping | MReturned

text \<open>The goroutine of lines 246-252: blocked in the receive of line 247, inside
  \<open>Shutdown\<close> (line 249), returned, ended by the \<open>log.Fatalf\<close> of line 250.\<close>

datatype signal_pc = GWaiting | GShutdown | GReturned | GFatal

text \<open>\<open>serviceTagChannel\<close>: before \<open>ConnectToDB\<close> (line 165), in the \<open>select\<close> (line
  173), inside \<open>IncrementLaps\<close> (line 175), blocked in the send of line 176, returned
  at line 168 after the failed connect, past the receive of line 178 and about to
  execute lines 179-180, returned at line 180 after the quit.\<close>

datatype 'n tagsvc_pc =
  TStart | TSelect | TCalling int | TSending 'n | TFailed | TExiting | TReturned

text \<open>\<open>serviceNotifyChannel\<close>: before line 211, in the \<open>select\<close> (line 215), in the
  \<open>range\<close> loop of lines 221-223 with the notification and the clients still to be
  visited (the head is the client of the current iteration), past the receive of line
  224 and about to execute lines 225-226, returned (line 226).\<close>

datatype 'n notifysvc_pc =
  HStart | HSelect | HFanout 'n "nat list" | HExiting | HReturned

text \<open>\<open>handleLaps\<close>, one per reader connection: not yet called, in \<open>ReadMessage\<close>
  (line 147), blocked in the send of line 150, returned.\<close>

datatype laps_pc = LIdle | LReading | LSending int | LReturned

text \<open>\<open>handleNotify\<close>, one per display connection: not yet called, blocked in the send
  of line 194, in the receive of line 197, in \<open>WriteJSON\<close> (line 199), blocked in the
  send of line 201, returned.\<close>

datatype 'n notify_pc =
  NIdle | NRegistering | NReceiving | NWriting 'n | NUnregistering | NReturned

subsection \<open>The state\<close>

text \<open>
  The first block is the program's state. \<open>clients\<close> is the local map of
  \<open>serviceNotifyChannel\<close>; \<open>objs\<close> holds the \<open>notifyClient\<close> values allocated so far,
  by address; the handler of display connection \<open>c\<close> allocates its client at address
  \<open>c\<close>. \<open>logged\<close> is what the \<open>log.Println\<close> calls of web.go have written (the
  literal first operand of each call).

  The second block is history, written and never read by \<open>step\<close>: the tag identifiers
  the tags channel accepted, the arguments of the \<open>IncrementLaps\<close> calls begun and the
  number of calls that returned, the notifications the notify channel accepted, the
  notifications \<open>serviceNotifyChannel\<close> received (each with the key set of \<open>clients\<close>
  at that instant), and per client what was put on its queue and what its handler
  took off it.
\<close>

record 'n state =
  svr :: "'n webServer"
  objs :: "nat \<rightharpoonup> 'n notifyClient"
  mainpc :: main_pc
  signalpc :: signal_pc
  tagsvc :: "'n tagsvc_pc"
  notifysvc :: "'n notifysvc_pc"
  clients :: "(nat, bool) mapping"
  laps :: "nat \<Rightarrow> laps_pc"
  notifs :: "nat \<Rightarrow> 'n notify_pc"
  logged :: "string list"
  h_sent :: "int list"
  h_calls :: "int list"
  h_returns :: nat
  h_produced :: "'n list"
  h_seen :: "('n \<times> nat set) list"
  h_enq :: "nat \<Rightarrow> 'n list"
  h_taken :: "nat \<Rightarrow> 'n list"

text \<open>\<open>StartWebServer\<close>, lines 233-263: the six channels are made, the signal
  goroutine and the two service goroutines are started, and the main goroutine enters
  \<open>ListenAndServe\<close>.\<close>

definition StartWebServer :: "'n state" where
  "StartWebServer =
     \<lparr>svr = \<lparr>tags = make_chan 10, quitTags = make_chan 0, notify = make_chan 10,
             quitNotify = make_chan 0, register = make_chan 0, unregister = make_chan 0\<rparr>,
      objs = Map.empty,
      mainpc = MServing,
      signalpc = GWaiting,
      tagsvc = TStart,
      notifysvc = HStart,
      clients = Mapping.empty,
      laps = (\<lambda>_. LIdle),
      notifs = (\<lambda>_. NIdle),
      logged = [],
      h_sent = [], h_calls = [], h_returns = 0, h_produced = [], h_seen = [],
      h_enq = (\<lambda>_. []), h_taken = (\<lambda>_. [])\<rparr>"

subsection \<open>The statements\<close>

datatype 'n action =
    Interrupt
  | ShutdownReturn bool
  | ListenAndServeReturn bool
  | QuitTags
  | QuitNotify
  | SleepDone
  | ConnectToDB bool
  | TagRecv
  | IncrementLapsReturn "'n option"
  | NotifySend
  | TagSvcExit
  | NotifySvcStart
  | NotifySvcExit
  | Register nat
  | Unregister nat
  | NotifyRecv "nat list"
  | ClientSend
  | LapsUpgrade nat bool
  | ReadMessage nat "string option"
  | TagSend nat
  | NotifyUpgrade nat bool
  | ClientRecv nat
  | WriteJSON nat bool

text \<open>The three writes \<open>serviceNotifyChannel\<close> makes to its map and its loop.\<close>

definition hub_register :: "nat \<Rightarrow> (nat, bool) mapping \<Rightarrow> (nat, bool) mapping" where
  "hub_register r m = Mapping.update r True m"

definition hub_unregister :: "nat \<Rightarrow> (nat, bool) mapping \<Rightarrow> (nat, bool) mapping" where
  "hub_unregister ur m = Mapping.delete ur m"

definition fanout :: "'n \<Rightarrow> nat list \<Rightarrow> 'n notifysvc_pc" where
  "fanout n cs = (if cs = [] then HSelect else HFanout n cs)"

definition println :: "string \<Rightarrow> 'n state \<Rightarrow> 'n state" where
  "println msg s = s\<lparr>logged := logged s @ [msg]\<rparr>"

text \<open>
  One statement of one goroutine. The labels, by goroutine:

  \<^item> the signal goroutine: \<open>Interrupt\<close> is the receive of line 247, the log line and
    the call of \<open>Shutdown\<close>; \<open>ShutdownReturn ok\<close> is its return (lines 249-251). On an
    error \<open>log.Fatalf\<close> writes the log line and ends the process; the model lets the
    schedule go on after that, so the schedules of the program are among the model's.
  \<^item> main: \<open>ListenAndServeReturn closed\<close> is the return of line 265 (\<open>closed\<close> says the
    error is \<open>http.ErrServerClosed\<close>, which is returned only once \<open>Shutdown\<close> has been
    called); \<open>QuitTags\<close> and \<open>QuitNotify\<close> are the hand-offs of lines 268 and 269 to
    the \<open>select\<close> of the service goroutine: main goes on to its next statement and
    the service goroutine to the body of its quit case; \<open>SleepDone\<close> is the end of the
    sleep.
  \<^item> \<open>serviceTagChannel\<close>: \<open>ConnectToDB ok\<close> (lines 164-169), \<open>TagRecv\<close> (line 174 and
    the call of line 175), \<open>IncrementLapsReturn r\<close> (the return of line 175; \<open>None\<close> is
    \<open>err != nil\<close>), \<open>NotifySend\<close> (line 176), \<open>TagSvcExit\<close> (lines 179-180).
  \<^item> \<open>serviceNotifyChannel\<close>: \<open>NotifySvcStart\<close> (lines 211-212), \<open>Register c\<close> and
    \<open>Unregister c\<close> (the hand-offs of lines 194 and 201 to lines 216-219),
    \<open>NotifyRecv order\<close> (line 220 and the start of the \<open>range\<close> of line 221, which
    visits every key once, in an order Go does not fix), \<open>ClientSend\<close> (line 222, for
    the client of the current iteration), \<open>NotifySvcExit\<close> (lines 225-226).
  \<^item> \<open>handleLaps\<close> of connection \<open>h\<close>: \<open>LapsUpgrade h ok\<close> (lines 138-143),
    \<open>ReadMessage h r\<close> (lines 147-157 up to the send; \<open>None\<close> is a read error),
    \<open>TagSend h\<close> (line 150).
  \<^item> \<open>handleNotify\<close> of connection \<open>c\<close>: \<open>NotifyUpgrade c ok\<close> (lines 187-193),
    \<open>ClientRecv c\<close> (line 197), \<open>WriteJSON c ok\<close> (lines 199-200).

  A handler may start at any time: a request accepted before \<open>ListenAndServe\<close>
  returned can reach its handler afterwards.
\<close>

fun step :: "'n action \<Rightarrow> 'n state \<Rightarrow> 'n state option" where
  "step Interrupt s =
     (if signalpc s = GWaiting
      then Some ((println ''received os.Interrupt'' s)\<lparr>signalpc := GShutdown\<rparr>)
      else None)"
| "step (ShutdownReturn ok) s =
     (if signalpc s = GShutdown
      then Some (if ok then s\<lparr>signalpc := GReturned\<rparr>
                 else (println ''Shutdown: '' s)\<lparr>signalpc := GFatal\<rparr>)
      else None)"
| "step (ListenAndServeReturn closed) s =
     (if mainpc s = MServing \<and> (closed \<longrightarrow> signalpc s \<noteq> GWaiting)
      then Some ((if closed then s else println ''http.ListenAndServe: '' s)
                   \<lparr>mainpc := MQuitTags\<rparr>)
      else None)"
| "step QuitTags s =
     (if mainpc s = MQuitTags \<and> tagsvc s = TSelect
      then Some (s\<lparr>mainpc := MQuitNotify, tagsvc := TExiting\<rparr>)
      else None)"
| "step QuitNotify s =
     (if mainpc s = MQuitNotify \<and> notifysvc s = HSelect
      then Some (s\<lparr>mainpc := MSleeping, notifysvc := HExiting\<rparr>)
      else None)"
| "step SleepDone s =
     (if mainpc s = MSleeping then Some (s\<lparr>mainpc := MReturned\<rparr>) else None)"
| "step (ConnectToDB ok) s =
     (if tagsvc s = TStart
      then Some (if ok
                 then (println ''serviceTagChannel starting'' s)\<lparr>tagsvc := TSelect\<rparr>
                 else (println ''tagChannel ConnectToDB: ''
                         (println ''serviceTagChannel starting'' s))\<lparr>tagsvc := TFailed\<rparr>)
      else None)"
| "step TagRecv s =
     (if tagsvc s = TSelect
      then (case buf (tags (svr s)) of
              [] \<Rightarrow> None
            | tagKey # _ \<Rightarrow>
                Some (s\<lparr>svr := (svr s)\<lparr>tags := chan_rest (tags (svr s))\<rparr>,
                        tagsvc := TCalling tagKey,
                        h_calls := h_calls s @ [tagKey]\<rparr>))
      else None)"
| "step (IncrementLapsReturn r) s =
     (case tagsvc s of
        TCalling tagKey \<Rightarrow>
          Some (s\<lparr>tagsvc := (case r of Some notif \<Rightarrow> TSending notif | None \<Rightarrow> TSelect),
                  h_returns := Suc (h_returns s)\<rparr>)
      | _ \<Rightarrow> None)"
| "step NotifySend s =
     (case tagsvc s of
        TSending notif \<Rightarrow>
          if chan_full (notify (svr s)) then None
          else Some (s\<lparr>svr := (svr s)\<lparr>notify := chan_put notif (notify (svr s))\<rparr>,
                       tagsvc := TSelect,
                       h_produced := h_produced s @ [notif]\<rparr>)
      | _ \<Rightarrow> None)"
| "step TagSvcExit s =
     (if tagsvc s = TExiting
      then Some ((println ''serviceTagChannel exiting'' s)\<lparr>tagsvc := TReturned\<rparr>)
      else None)"
| "step NotifySvcExit s =
     (if notifysvc s = HExiting
      then Some ((println ''serviceNotifyChannel exiting'' s)\<lparr>notifysvc := HReturned\<rparr>)
      else None)"
| "step NotifySvcStart s =
     (if notifysvc s = HStart
      then Some ((println ''serviceNotifyChannel starting'' s)
                   \<lparr>notifysvc := HSelect, clients := Mapping.empty\<rparr>)
      else None)"
| "step (Register c) s =
     (if notifs s c = NRegistering \<and> notifysvc s = HSelect
      then Some (s\<lparr>clients := hub_register c (clients s),
                   notifs := (notifs s)(c := NReceiving)\<rparr>)
      else None)"
| "step (Unregister c) s =
     (if notifs s c = NUnregistering \<and> notifysvc s = HSelect
      then Some (s\<lparr>clients := hub_unregister c (clients s),
                   notifs := (notifs s)(c := NReturned)\<rparr>)
      else None)"
| "step (NotifyRecv order) s =
     (if notifysvc s = HSelect \<and> distinct order \<and> set order = Mapping.keys (clients s)
      then (case buf (notify (svr s)) of
              [] \<Rightarrow> None
            | notif # _ \<Rightarrow>
                Some (s\<lparr>svr := (svr s)\<lparr>notify := chan_rest (notify (svr s))\<rparr>,
                        notifysvc := fanout notif order,
                        h_seen := h_seen s @ [(notif, Mapping.keys (clients s))]\<rparr>))
      else None)"
| "step ClientSend s =
     (case notifysvc s of
        HFanout notif (client # rest) \<Rightarrow>
          (case objs s client of
             None \<Rightarrow> None
           | Some obj \<Rightarrow>
               if chan_full (send obj) then None
               else Some (s\<lparr>objs := (objs s)(client \<mapsto> obj\<lparr>send := chan_put notif (send obj)\<rparr>),
                            notifysvc := fanout notif rest,
                            h_enq := (h_enq s)(client := h_enq s client @ [notif])\<rparr>))
      | _ \<Rightarrow> None)"
| "step (LapsUpgrade h ok) s =
     (if laps s h = LIdle
      then Some (if ok
                 then (println ''handleLaps starting'' s)\<lparr>laps := (laps s)(h := LReading)\<rparr>
                 else (println ''/laps/ upgrader.Upgrade: ''
                         (println ''handleLaps starting'' s))\<lparr>laps := (laps s)(h := LReturned)\<rparr>)
      else None)"
| "step (ReadMessage h r) s =
     (if laps s h = LReading
      then (case r of
              None \<Rightarrow>
                Some ((println ''handleLaps exiting'' (println ''conn.ReadMessage: '' s))
                        \<lparr>laps := (laps s)(h := LReturned)\<rparr>)
            | Some msg \<Rightarrow>
                (case Atoi msg of
                   Some tagID \<Rightarrow> Some (s\<lparr>laps := (laps s)(h := LSending tagID)\<rparr>)
                 | None \<Rightarrow> Some (println ''strconv.Atoi: '' s)))
      else None)"
| "step (TagSend h) s =
     (case laps s h of
        LSending tagID \<Rightarrow>
          if chan_full (tags (svr s)) then None
          else Some (s\<lparr>svr := (svr s)\<lparr>tags := chan_put tagID (tags (svr s))\<rparr>,
                       laps := (laps s)(h := LReading),
                       h_sent := h_sent s @ [tagID]\<rparr>)
      | _ \<Rightarrow> None)"
| "step (NotifyUpgrade c ok) s =
     (if notifs s c = NIdle
      then Some (if ok
                 then s\<lparr>objs := (objs s)(c \<mapsto> \<lparr>send = make_chan 10\<rparr>),
                        notifs := (notifs s)(c := NRegistering)\<rparr>
                 else (println ''/notify upgrader.Upgrade '' s)
                        \<lparr>notifs := (notifs s)(c := NReturned)\<rparr>)
      else None)"
| "step (ClientRecv c) s =
     (if notifs s c = NReceiving
      then (case objs s c of
              None \<Rightarrow> None
            | Some obj \<Rightarrow>
                (case buf (send obj) of
                   [] \<Rightarrow> None
                 | notif # _ \<Rightarrow>
                     Some (s\<lparr>objs := (objs s)(c \<mapsto> obj\<lparr>send := chan_rest (send obj)\<rparr>),
                             notifs := (notifs s)(c := NWriting notif),
                             h_taken := (h_taken s)(c := h_taken s c @ [notif])\<rparr>)))
      else None)"
| "step (WriteJSON c ok) s =
     (case notifs s c of
        NWriting notif \<Rightarrow>
          Some (if ok then s\<lparr>notifs := (notifs s)(c := NReceiving)\<rparr>
                else (println ''WriteJSON: '' s)\<lparr>notifs := (notifs s)(c := NUnregistering)\<rparr>)
      | _ \<Rightarrow> None)"

text \<open>A schedule is a list of labels; \<open>run\<close> executes it, and is \<open>None\<close> when some
  statement of the schedule cannot be executed where the schedule puts it.\<close>

fun run :: "'n action list \<Rightarrow> 'n state \<Rightarrow> 'n state option" where
  "run [] s = Some s"
| "run (a # as) s = (case step a s of None \<Rightarrow> None | Some s' \<Rightarrow> run as s')"

text \<open>The state with its history erased. \<open>step\<close> never reads the history: erasing it
  before a statement or after it gives the same state (lemma \<open>history_not_read\<close>).\<close>

definition forget :: "'n state \<Rightarrow> 'n state" where
  "forget s =
     s\<lparr>h_sent := [], h_calls := [], h_returns := 0, h_produced := [], h_seen := [],
       h_enq := (\<lambda>_. []), h_taken := (\<lambda>_. [])\<rparr>"

subsection \<open>Invariants\<close>

text \<open>Of the notifications \<open>serviceNotifyChannel\<close> received, those it received while
  \<open>c\<close> was a key of \<open>clients\<close>.\<close>

definition deliveries :: "nat \<Rightarrow> ('n \<times> nat set) list \<Rightarrow> 'n list" where
  "deliveries c hs = map fst (filter (\<lambda>p. c \<in> snd p) hs)"

text \<open>The clients the running \<open>range\<close> loop has still to visit; the notification a
  client is still to be sent by that loop; whether a handler is between its register
  and its unregister hand-off; the number of \<open>IncrementLaps\<close> calls in progress.\<close>

fun remaining :: "'n notifysvc_pc \<Rightarrow> nat list" where
  "remaining (HFanout n cs) = cs"
| "remaining _ = []"

fun pending :: "'n notifysvc_pc \<Rightarrow> nat \<Rightarrow> 'n list" where
  "pending (HFanout n cs) c = (if c \<in> set cs then [n] else [])"
| "pending _ c = []"

fun registered_pc :: "'n notify_pc \<Rightarrow> bool" where
  "registered_pc NReceiving = True"
| "registered_pc (NWriting n) = True"
| "registered_pc NUnregistering = True"
| "registered_pc _ = False"

fun calling :: "'n tagsvc_pc \<Rightarrow> nat" where
  "calling (TCalling t) = 1"
| "calling _ = 0"

text \<open>The fan-out: what was put on the queue of \<open>c\<close>, and what the running loop
  will still put on it, is what \<open>deliveries\<close> says; the loop visits no client twice.\<close>

definition fanout_ok :: "'n state \<Rightarrow> nat \<Rightarrow> bool" where
  "fanout_ok s c =
     (h_enq s c @ pending (notifysvc s) c = deliveries c (h_seen s) \<and>
      distinct (remaining (notifysvc s)))"

text \<open>The six channels keep the capacities \<open>StartWebServer\<close> gave them; the buffered
  ones never hold more, and the unbuffered ones never hold anything.\<close>

definition chans_ok :: "'n state \<Rightarrow> bool" where
  "chans_ok s =
     (cap (tags (svr s)) = 10 \<and> cap (notify (svr s)) = 10 \<and>
      cap (quitTags (svr s)) = 0 \<and> cap (quitNotify (svr s)) = 0 \<and>
      cap (register (svr s)) = 0 \<and> cap (unregister (svr s)) = 0 \<and>
      buf (quitTags (svr s)) = [] \<and> buf (quitNotify (svr s)) = [] \<and>
      buf (register (svr s)) = [] \<and> buf (unregister (svr s)) = [] \<and>
      length (buf (tags (svr s))) \<le> 10 \<and> length (buf (notify (svr s))) \<le> 10)"

text \<open>Nothing is lost or duplicated between a channel's senders and its receiver.\<close>

definition flow_ok :: "'n state \<Rightarrow> bool" where
  "flow_ok s =
     (h_sent s = h_calls s @ buf (tags (svr s)) \<and>
      h_produced s = map fst (h_seen s) @ buf (notify (svr s)) \<and>
      length (h_calls s) = h_returns s + calling (tagsvc s))"

text \<open>The queue of a client is first-in first-out, of capacity 10, and allocated by
  its handler before anything is put on it.\<close>

definition queue_ok :: "'n state \<Rightarrow> nat \<Rightarrow> bool" where
  "queue_ok s c =
     ((objs s c = None \<longrightarrow> h_enq s c = [] \<and> h_taken s c = []) \<and>
      (\<forall>obj. objs s c = Some obj \<longrightarrow>
         h_enq s c = h_taken s c @ buf (send obj) \<and>
         cap (send obj) = 10 \<and> length (buf (send obj)) \<le> 10) \<and>
      (notifs s c = NIdle \<longrightarrow> objs s c = None))"

text \<open>The keys of \<open>clients\<close> are the clients whose handler is between register and
  unregister; every stored value is \<open>true\<close>; such clients are allocated; the running
  loop visits keys only.\<close>

definition sink_ok :: "'n state \<Rightarrow> nat \<Rightarrow> bool" where
  "sink_ok s c =
     ((Mapping.lookup (clients s) c = None \<or> Mapping.lookup (clients s) c = Some True) \<and>
      (Mapping.lookup (clients s) c = Some True \<longrightarrow> registered_pc (notifs s c)) \<and>
      (registered_pc (notifs s c) \<longrightarrow> Mapping.lookup (clients s) c = Some True) \<and>
      (registered_pc (notifs s c) \<or> notifs s c = NRegistering \<longrightarrow> objs s c \<noteq> None) \<and>
      (c \<in> set (remaining (notifysvc s)) \<longrightarrow> Mapping.lookup (clients s) c = Some True) \<and>
      (notifysvc s = HStart \<longrightarrow> Mapping.lookup (clients s) c = None))"


text \<open>Whether the main goroutine is past the send of line 268, and past the send of
  line 269; whether a service goroutine has received its quit; whether
  \<open>serviceTagChannel\<close> never reached its loop.\<close>

fun past_quit_tags :: "main_pc \<Rightarrow> bool" where
  "past_quit_tags MServing = False"
| "past_quit_tags MQuitTags = False"
| "past_quit_tags _ = True"

fun past_quit_notify :: "main_pc \<Rightarrow> bool" where
  "past_quit_notify MSleeping = True"
| "past_quit_notify MReturned = True"
| "past_quit_notify _ = False"

fun tags_quit :: "'n tagsvc_pc \<Rightarrow> bool" where
  "tags_quit TExiting = True"
| "tags_quit TReturned = True"
| "tags_quit _ = False"

fun notify_quit :: "'n notifysvc_pc \<Rightarrow> bool" where
  "notify_quit HExiting = True"
| "notify_quit HReturned = True"
| "notify_quit _ = False"

fun never_looped :: "'n tagsvc_pc \<Rightarrow> bool" where
  "never_looped TStart = True"
| "never_looped TFailed = True"
| "never_looped _ = False"

text \<open>The main goroutine is past line 268 exactly when \<open>serviceTagChannel\<close> has
  received its quit, and past line 269 exactly when \<open>serviceNotifyChannel\<close> has; a
  \<open>serviceTagChannel\<close> that never reached its loop has made no call.\<close>

definition shutdown_ok :: "'n state \<Rightarrow> bool" where
  "shutdown_ok s =
     (tags_quit (tagsvc s) = past_quit_tags (mainpc s) \<and>
      notify_quit (notifysvc s) = past_quit_notify (mainpc s) \<and>
      (never_looped (tagsvc s) \<longrightarrow> h_calls s = []))"

text \<open>A handler that has returned, with its client out of the map and out of the
  running loop; and a fan-out that has reached a client with a full queue whose
  handler is blocked in its unregister send.\<close>

definition gone :: "'n state \<Rightarrow> nat \<Rightarrow> bool" where
  "gone s c =
     (notifs s c = NReturned \<and> Mapping.lookup (clients s) c = None \<and>
      c \<notin> set (remaining (notifysvc s)))"

definition blocked_on :: "'n state \<Rightarrow> 'n \<Rightarrow> nat \<Rightarrow> nat list \<Rightarrow> bool" where
  "blocked_on s n c cs =
     (notifysvc s = HFanout n (c # cs) \<and> notifs s c = NUnregistering \<and>
      (\<exists>obj. objs s c = Some obj \<and> chan_full (send obj)))"



subsection \<open>Schedules\<close>

text \<open>
  Concrete schedules, all for notifications that are natural numbers (the lap count).
  \<open>lap n order\<close> takes one tag read through the pipeline up to the start of the fan-out:
  reader 0 reads the frame \<open>42\<close> and submits it, \<open>serviceTagChannel\<close> receives it,
  \<open>IncrementLaps\<close> returns the notification \<open>n\<close>, which is sent on and received by
  \<open>serviceNotifyChannel\<close>, whose \<open>range\<close> will visit the clients in \<open>order\<close>.
\<close>

definition lap :: "nat \<Rightarrow> nat list \<Rightarrow> nat action list" where
  "lap n order =
     [ReadMessage 0 (Some ''42''), TagSend 0, TagRecv, IncrementLapsReturn (Some n),
      NotifySend, NotifyRecv order]"

text \<open>Both services start, reader 0 and display 1 connect, display 1 registers, and
  reader 0 submits the tag identifier 42; \<open>serviceTagChannel\<close> receives it and calls
  \<open>IncrementLaps\<close>; the call returns notification 7, which is delivered to the queue of
  client 1.\<close>

definition tag_submitted :: "nat action list" where
  "tag_submitted =
     [NotifySvcStart, ConnectToDB True, LapsUpgrade 0 True, NotifyUpgrade 1 True, Register 1,
      ReadMessage 0 (Some ''42''), TagSend 0]"

definition in_call :: "nat action list" where
  "in_call = tag_submitted @ [TagRecv]"

definition one_lap :: "nat action list" where
  "one_lap = in_call @ [IncrementLapsReturn (Some 7), NotifySend, NotifyRecv [1], ClientSend]"

definition two_laps :: "nat action list" where
  "two_laps = one_lap @ lap 8 [1] @ [ClientSend]"

text \<open>\<open>ConnectToDB\<close> fails at startup; a reader then submits one tag identifier.\<close>

definition failed_start :: "nat action list" where
  "failed_start =
     [ConnectToDB False, LapsUpgrade 0 True, ReadMessage 0 (Some ''42''), TagSend 0]"

text \<open>After one lap the server is interrupted and shut down (both services receive
  their quit and return), and only then does display 1 take the notification off its
  queue and fail to write it.\<close>

definition write_fails_after_quit :: "nat action list" where
  "write_fails_after_quit =
     one_lap @ [Interrupt, ListenAndServeReturn True, QuitTags, TagSvcExit, QuitNotify,
                NotifySvcExit, ClientRecv 1, WriteJSON 1 False]"

text \<open>Display 1 takes notification 7 off its queue and is slow to write it; ten more
  laps fill its queue; display 2 connects and registers; the next lap starts a fan-out
  that visits client 1 first and blocks on its full queue.\<close>

definition full_queue_blocks :: "nat action list" where
  "full_queue_blocks =
     one_lap @ [ClientRecv 1]
     @ concat (map (\<lambda>n. lap n [1] @ [ClientSend]) [8, 9, 10, 11, 12, 13, 14, 15, 16, 17])
     @ [NotifyUpgrade 2 True, Register 2]
     @ lap 18 [1, 2]"

text \<open>Then the write of display 1 fails.\<close>

definition full_queue_deadlock :: "nat action list" where
  "full_queue_deadlock = full_queue_blocks @ [WriteJSON 1 False]"

text \<open>Reader 0 submits ten tag identifiers that nobody receives, and reads an eleventh.\<close>

definition read_send :: "nat action list" where
  "read_send = [ReadMessage 0 (Some ''42''), TagSend 0]"

definition ten_tags :: "nat action list" where
  "ten_tags =
     LapsUpgrade 0 True
     # concat [read_send, read_send, read_send, read_send, read_send,
               read_send, read_send, read_send, read_send, read_send]
     @ [ReadMessage 0 (Some ''42'')]"

section \<open>Properties\<close>

subsection \<open>Schedules and invariants\<close>

lemma run_append:
  "run (as @ bs) s = (case run as s of None \<Rightarrow> None | Some s' \<Rightarrow> run bs s')"
  by (induction as arbitrary: s) (auto split: option.splits)

lemma run_snoc:
  "run (as @ [a]) s = Some s' \<Longrightarrow> \<exists>t. run as s = Some t \<and> step a t = Some s'"
  by (auto simp add: run_append split: option.splits)

text \<open>A property that every statement preserves holds along every schedule.\<close>

lemma run_pres:
  assumes "\<And>a s. P s \<Longrightarrow> (case step a s of None \<Rightarrow> True | Some s' \<Rightarrow> P s')"
  shows "P s \<Longrightarrow> run as s = Some s' \<Longrightarrow> P s'"
proof (induction as arbitrary: s)
  case Nil
  then show ?case by simp
next
  case (Cons a as)
  from Cons.prems(2) obtain t where t: "step a s = Some t" and r: "run as t = Some s'"
    by (auto split: option.splits)
  from assms[OF Cons.prems(1), of a] t have "P t" by simp
  then show ?case using Cons.IH r by blast
qed

lemmas goal_splits = if_split option.split list.split tagsvc_pc.split
  notifysvc_pc.split laps_pc.split notify_pc.split

lemmas step_defs = fanout_def println_def hub_register_def hub_unregister_def
  chan_full_def chan_put_def chan_rest_def make_chan_def

lemmas eval_defs = StartWebServer_def step_defs Atoi_def isDigit_def digitsVal_def
  lap_def tag_submitted_def in_call_def one_lap_def two_laps_def failed_start_def write_fails_after_quit_def
  full_queue_blocks_def full_queue_deadlock_def read_send_def ten_tags_def

lemma history_not_read:
  "map_option forget (step a (forget s)) = map_option forget (step a s)"
  by (cases a) (auto simp add: forget_def step_defs split: goal_splits)

lemma in_keys_lookup: "(c \<in> Mapping.keys m) = (Mapping.lookup m c \<noteq> None)"
  by (auto simp add: keys_dom_lookup)

lemma fanout_ok_step:
  "fanout_ok s c \<Longrightarrow> (case step a s of None \<Rightarrow> True | Some s' \<Rightarrow> fanout_ok s' c)"
  by (cases a) (auto simp add: fanout_ok_def deliveries_def step_defs split: goal_splits)

lemma chans_ok_step:
  "chans_ok s \<Longrightarrow> (case step a s of None \<Rightarrow> True | Some s' \<Rightarrow> chans_ok s')"
  by (cases a) (auto simp add: chans_ok_def step_defs split: goal_splits)

lemma flow_ok_step:
  "flow_ok s \<Longrightarrow> (case step a s of None \<Rightarrow> True | Some s' \<Rightarrow> flow_ok s')"
  by (cases a) (auto simp add: flow_ok_def step_defs split: goal_splits)

lemma queue_ok_step:
  "queue_ok s c \<Longrightarrow> (case step a s of None \<Rightarrow> True | Some s' \<Rightarrow> queue_ok s' c)"
  by (cases a) (auto simp add: queue_ok_def step_defs split: goal_splits)

lemma sink_ok_step:
  "sink_ok s c \<Longrightarrow> (case step a s of None \<Rightarrow> True | Some s' \<Rightarrow> sink_ok s' c)"
  by (cases a) (auto simp add: sink_ok_def step_defs in_keys_lookup split: goal_splits)


lemma shutdown_ok_step:
  "shutdown_ok s \<Longrightarrow> (case step a s of None \<Rightarrow> True | Some s' \<Rightarrow> shutdown_ok s')"
  by (cases a) (auto simp add: shutdown_ok_def step_defs split: goal_splits)

lemma fanout_ok_init: "fanout_ok StartWebServer c"
  by (simp add: fanout_ok_def StartWebServer_def deliveries_def)

lemma chans_ok_init: "chans_ok StartWebServer"
  by (simp add: chans_ok_def StartWebServer_def make_chan_def)

lemma flow_ok_init: "flow_ok StartWebServer"
  by (simp add: flow_ok_def StartWebServer_def make_chan_def)

lemma queue_ok_init: "queue_ok StartWebServer c"
  by (simp add: queue_ok_def StartWebServer_def)

lemma sink_ok_init: "sink_ok StartWebServer c"
  by (simp add: sink_ok_def StartWebServer_def)


lemma shutdown_ok_init: "shutdown_ok StartWebServer"
  by (simp add: shutdown_ok_def StartWebServer_def)

lemma reach_fanout_ok: "run as StartWebServer = Some s \<Longrightarrow> fanout_ok s c"
  by (rule run_pres[where P = "\<lambda>s. fanout_ok s c", OF fanout_ok_step fanout_ok_init])

lemma reach_chans_ok: "run as StartWebServer = Some s \<Longrightarrow> chans_ok s"
  by (rule run_pres[where P = chans_ok, OF chans_ok_step chans_ok_init])

lemma reach_flow_ok: "run as StartWebServer = Some s \<Longrightarrow> flow_ok s"
  by (rule run_pres[where P = flow_ok, OF flow_ok_step flow_ok_init])

lemma reach_queue_ok: "run as StartWebServer = Some s \<Longrightarrow> queue_ok s c"
  by (rule run_pres[where P = "\<lambda>s. queue_ok s c", OF queue_ok_step queue_ok_init])

lemma reach_sink_ok: "run as StartWebServer = Some s \<Longrightarrow> sink_ok s c"
  by (rule run_pres[where P = "\<lambda>s. sink_ok s c", OF sink_ok_step sink_ok_init])


lemma reach_shutdown_ok: "run as StartWebServer = Some s \<Longrightarrow> shutdown_ok s"
  by (rule run_pres[where P = shutdown_ok, OF shutdown_ok_step shutdown_ok_init])

subsection \<open>The fan-out: who receives a notification, and in which order\<close>


lemma deliveries_subseq: "subseq (deliveries c hs) (map fst hs)"
  unfolding deliveries_def by (induction hs) auto


lemma deliveries_split:
  assumes "i < length hs" "c \<in> snd (hs ! i)"
  shows "deliveries c hs =
           deliveries c (take i hs) @ fst (hs ! i) # deliveries c (drop (Suc i) hs)"
proof -
  have "hs = take i hs @ hs ! i # drop (Suc i) hs"
    using assms(1) by (simp add: id_take_nth_drop)
  then have "deliveries c hs = deliveries c (take i hs @ hs ! i # drop (Suc i) hs)"
    by simp
  also have "\<dots> = deliveries c (take i hs) @ fst (hs ! i) # deliveries c (drop (Suc i) hs)"
    using assms(2) by (simp add: deliveries_def)
  finally show ?thesis .
qed

lemma deliveries_split2:
  assumes "i < j" "j < length hs" "c \<in> snd (hs ! i)" "c \<in> snd (hs ! j)"
  shows "deliveries c hs =
           deliveries c (take i hs) @ fst (hs ! i) #
           deliveries c (take (j - Suc i) (drop (Suc i) hs)) @ fst (hs ! j) #
           deliveries c (drop (Suc j) hs)"
proof -
  let ?r = "drop (Suc i) hs"
  have i: "i < length hs" using assms by simp
  have k: "j - Suc i < length ?r" using assms by simp
  have nth: "?r ! (j - Suc i) = hs ! j" using assms by simp
  have dr: "drop (Suc (j - Suc i)) ?r = drop (Suc j) hs" using assms by simp
  have "deliveries c ?r =
          deliveries c (take (j - Suc i) ?r) @ fst (?r ! (j - Suc i)) #
          deliveries c (drop (Suc (j - Suc i)) ?r)"
    using deliveries_split[OF k, of c] assms(4) nth by simp
  then show ?thesis
    using deliveries_split[OF i assms(3)] nth dr by simp
qed








subsection \<open>The tags channel and the calls of IncrementLaps\<close>

lemma calls_change_step:
  "case step a s of None \<Rightarrow> True
   | Some s' \<Rightarrow> h_calls s' = h_calls s \<or>
       (a = TagRecv \<and> calling (tagsvc s) = 0 \<and> (\<exists>t. h_calls s' = h_calls s @ [t]))"
  by (cases a) (auto simp add: step_defs split: goal_splits)

lemma failed_step:
  "tagsvc s = TFailed \<Longrightarrow> (case step a s of None \<Rightarrow> True | Some s' \<Rightarrow> tagsvc s' = TFailed)"
  by (cases a) (auto simp add: step_defs split: goal_splits)

lemma failed_forever:
  "tagsvc s = TFailed \<Longrightarrow> run bs s = Some s' \<Longrightarrow> tagsvc s' = TFailed"
  by (rule run_pres[where P = "\<lambda>s. tagsvc s = TFailed", OF failed_step])

lemma stopped_step:
  "tagsvc s = TFailed \<or> tagsvc s = TReturned \<Longrightarrow>
     (case step a s of None \<Rightarrow> True
      | Some s' \<Rightarrow> (tagsvc s' = TFailed \<or> tagsvc s' = TReturned) \<and> h_calls s' = h_calls s)"
  by (cases a) (auto simp add: step_defs split: goal_splits)

lemma stopped_forever:
  "tagsvc s = TFailed \<or> tagsvc s = TReturned \<Longrightarrow> run bs s = Some s' \<Longrightarrow>
     (tagsvc s' = TFailed \<or> tagsvc s' = TReturned) \<and> h_calls s' = h_calls s"
proof (induction bs arbitrary: s)
  case Nil
  then show ?case by simp
next
  case (Cons a bs)
  from Cons.prems(2) obtain t where t: "step a s = Some t" and r: "run bs t = Some s'"
    by (auto split: option.splits)
  from stopped_step[OF Cons.prems(1), of a] t
  have g: "tagsvc t = TFailed \<or> tagsvc t = TReturned" and e: "h_calls t = h_calls s"
    by simp_all
  from Cons.IH[OF g r] e show ?case by simp
qed

text \<open>
  \<^bold>\<open>C2\<close>, as amended. The claim says that for \<open>N\<close> submitted tag identifiers
  \<open>IncrementLaps\<close> is invoked exactly \<open>N\<close> times, strictly serialized.

  What holds after every schedule: the tag identifiers the tags channel has accepted
  (\<open>h_sent\<close>, from all reader connections) are the arguments of the calls begun so far
  (\<open>h_calls\<close>), in the same order, followed by what is still buffered in the channel.
  So every accepted identifier is passed to \<open>IncrementLaps\<close> at most once, in channel
  order, and the number of calls is \<open>N\<close> once the channel is drained. At most one call
  is in progress, and a new call begins only by the \<open>TagRecv\<close> statement of
  \<open>serviceTagChannel\<close>, and only when no call is in progress. Once
  \<open>serviceTagChannel\<close> has returned (after a failed \<open>ConnectToDB\<close> or on quit) no
  further call is made, whatever is still buffered.
\<close>

theorem C2_calls_in_channel_order:
  assumes "run as StartWebServer = Some s"
  shows "h_sent s = h_calls s @ buf (tags (svr s)) \<and>
         (buf (tags (svr s)) = [] \<longrightarrow> length (h_calls s) = length (h_sent s)) \<and>
         length (h_calls s) = h_returns s + calling (tagsvc s) \<and>
         calling (tagsvc s) \<le> 1 \<and>
         (\<forall>a s'. step a s = Some s' \<and> h_calls s' \<noteq> h_calls s \<longrightarrow>
            a = TagRecv \<and> calling (tagsvc s) = 0 \<and> (\<exists>t. h_calls s' = h_calls s @ [t])) \<and>
         (tagsvc s = TFailed \<or> tagsvc s = TReturned \<longrightarrow>
            (\<forall>bs s'. run bs s = Some s' \<longrightarrow> h_calls s' = h_calls s))"
proof -
  have flow: "h_sent s = h_calls s @ buf (tags (svr s))"
    and cnt: "length (h_calls s) = h_returns s + calling (tagsvc s)"
    using reach_flow_ok[OF assms] by (simp_all add: flow_ok_def)
  have one: "calling (tagsvc s) \<le> 1"
    by (cases "tagsvc s") simp_all
  have only: "\<forall>a s'. step a s = Some s' \<and> h_calls s' \<noteq> h_calls s \<longrightarrow>
            a = TagRecv \<and> calling (tagsvc s) = 0 \<and> (\<exists>t. h_calls s' = h_calls s @ [t])"
  proof (intro allI impI)
    fix a s'
    assume h: "step a s = Some s' \<and> h_calls s' \<noteq> h_calls s"
    then show "a = TagRecv \<and> calling (tagsvc s) = 0 \<and> (\<exists>t. h_calls s' = h_calls s @ [t])"
      using calls_change_step[where a=a and s=s] by simp
  qed
  have drained: "buf (tags (svr s)) = [] \<longrightarrow> length (h_calls s) = length (h_sent s)"
    using flow by simp
  have stopped: "tagsvc s = TFailed \<or> tagsvc s = TReturned \<longrightarrow>
            (\<forall>bs s'. run bs s = Some s' \<longrightarrow> h_calls s' = h_calls s)"
    using stopped_forever[of s] by blast
  from flow drained cnt one only stopped show ?thesis by blast
qed

text \<open>Witness for C2: one identifier accepted and still buffered, then received.\<close>

theorem C2_witness:
  "\<exists>s s'. run (tag_submitted) StartWebServer = Some s \<and> step TagRecv s = Some s' \<and>
          h_sent s = [42] \<and> h_calls s = [] \<and> buf (tags (svr s)) = [42] \<and>
          h_sent s = h_calls s @ buf (tags (svr s)) \<and>
          h_calls s' = [42] \<and> calling (tagsvc s) = 0 \<and> calling (tagsvc s') = 1"
proof -
  have "\<exists>s s'. run (tag_submitted) (StartWebServer :: nat state) = Some s \<and>
          step TagRecv s = Some s' \<and>
          h_sent s = [42] \<and> h_calls s = [] \<and> buf (tags (svr s)) = [42] \<and>
          h_calls s' = [42] \<and> calling (tagsvc s') = 1"
    by (simp add: eval_defs)
  then obtain s s' :: "nat state" where r: "run (tag_submitted) StartWebServer = Some s"
    and st: "step TagRecv s = Some s'"
    and f: "h_sent s = [42]" "h_calls s = []" "buf (tags (svr s)) = [42]"
      "h_calls s' = [42]" "calling (tagsvc s') = 1"
    by blast
  note c2 = C2_calls_in_channel_order[OF r]
  have a: "h_sent s = h_calls s @ buf (tags (svr s))"
    using c2[THEN conjunct1] .
  note only = c2[THEN conjunct2, THEN conjunct2, THEN conjunct2, THEN conjunct2,
                 THEN conjunct1, rule_format, of TagRecv s']
  from only st f have b: "calling (tagsvc s) = 0" by simp
  from r st f a b show ?thesis by blast
qed

text \<open>
  Counterexample to C2 as stated: after \<open>failed_start\<close> one tag identifier has been
  parsed and accepted by the tags channel (\<open>N = 1\<close>), \<open>serviceTagChannel\<close> has returned
  because \<open>ConnectToDB\<close> failed, and no continuation of the schedule ever calls
  \<open>IncrementLaps\<close>.
\<close>

theorem C2_counterexample:
  "map_option h_sent (run failed_start StartWebServer) = Some [42] \<and>
   map_option h_calls (run failed_start StartWebServer) = Some [] \<and>
   \<not> (\<exists>bs s'. run (failed_start @ bs) StartWebServer = Some s' \<and> h_calls s' \<noteq> [])"
proof -
  have e: "\<exists>s. run failed_start (StartWebServer :: nat state) = Some s \<and>
             tagsvc s = TFailed \<and> h_sent s = [42] \<and> h_calls s = []"
    by (simp add: eval_defs)
  then obtain s :: "nat state" where r: "run failed_start StartWebServer = Some s"
    and f: "tagsvc s = TFailed" "h_sent s = [42]" "h_calls s = []"
    by blast
  have "h_calls s' = []" if "run (failed_start @ bs) StartWebServer = Some s'" for bs s'
  proof -
    from that r have rb: "run bs s = Some s'" by (simp add: run_append)
    from failed_forever[OF f(1) rb] have "tagsvc s' = TFailed" .
    moreover have "shutdown_ok s'" using reach_shutdown_ok[OF that] .
    ultimately show ?thesis by (simp add: shutdown_ok_def)
  qed
  with r f show ?thesis by auto
qed

text \<open>
  \<^bold>\<open>C3\<close>. If the hub processes \<open>n1\<close> before \<open>n2\<close>, every client registered at both
  moments has \<open>n1\<close> before \<open>n2\<close> on its queue, and all clients see the order in which
  \<open>serviceTagChannel\<close> produced the notifications.

  After every schedule: the notifications the hub has received are a prefix of the
  notifications \<open>serviceTagChannel\<close> has sent (\<open>h_produced\<close>); the queue history of
  every client is a subsequence of \<open>h_produced\<close>; the queue is first-in first-out
  (what was put on it is what the handler took off it followed by what it holds);
  and for positions \<open>i < j\<close> of \<open>h_seen\<close> whose key sets both contain \<open>c\<close>, the queue
  history of \<open>c\<close> (with the pending notification) has the \<open>i\<close>-th notification
  before the \<open>j\<close>-th, at the positions \<open>deliveries\<close> gives them.
\<close>

theorem C3_order_preserved:
  assumes "run as StartWebServer = Some s"
  shows "prefix (map fst (h_seen s)) (h_produced s) \<and>
         subseq (h_enq s c) (h_produced s) \<and>
         (\<forall>obj. objs s c = Some obj \<longrightarrow> h_enq s c = h_taken s c @ buf (send obj)) \<and>
         (\<forall>i j. i < j \<and> j < length (h_seen s) \<and>
                c \<in> snd (h_seen s ! i) \<and> c \<in> snd (h_seen s ! j) \<longrightarrow>
            h_enq s c @ pending (notifysvc s) c =
              deliveries c (take i (h_seen s)) @ fst (h_seen s ! i) #
              deliveries c (take (j - Suc i) (drop (Suc i) (h_seen s))) @ fst (h_seen s ! j) #
              deliveries c (drop (Suc j) (h_seen s)))"
proof -
  have flow: "h_produced s = map fst (h_seen s) @ buf (notify (svr s))"
    using reach_flow_ok[OF assms] by (simp add: flow_ok_def)
  have fan: "h_enq s c @ pending (notifysvc s) c = deliveries c (h_seen s)"
    using reach_fanout_ok[OF assms, of c] by (simp add: fanout_ok_def)
  have p: "prefix (map fst (h_seen s)) (h_produced s)"
    using flow by simp
  have "subseq (h_enq s c) (h_enq s c @ pending (notifysvc s) c)"
    by (rule prefix_imp_subseq) simp
  then have "subseq (h_enq s c) (map fst (h_seen s))"
    using fan deliveries_subseq[of c "h_seen s"] subseq_order.trans by metis
  moreover have "subseq (map fst (h_seen s)) (h_produced s)"
    using p by (rule prefix_imp_subseq)
  ultimately have sub: "subseq (h_enq s c) (h_produced s)"
    using subseq_order.trans by blast
  have q: "\<forall>obj. objs s c = Some obj \<longrightarrow> h_enq s c = h_taken s c @ buf (send obj)"
    using reach_queue_ok[OF assms, of c] by (simp add: queue_ok_def)
  have ord: "\<forall>i j. i < j \<and> j < length (h_seen s) \<and>
                c \<in> snd (h_seen s ! i) \<and> c \<in> snd (h_seen s ! j) \<longrightarrow>
            h_enq s c @ pending (notifysvc s) c =
              deliveries c (take i (h_seen s)) @ fst (h_seen s ! i) #
              deliveries c (take (j - Suc i) (drop (Suc i) (h_seen s))) @ fst (h_seen s ! j) #
              deliveries c (drop (Suc j) (h_seen s))"
    using fan deliveries_split2[of _ _ "h_seen s" c] by simp
  from p sub q ord show ?thesis by blast
qed

text \<open>Witness for C3: after \<open>two_laps\<close> client 1 holds 7 before 8.\<close>

theorem C3_witness:
  "\<exists>s. run two_laps StartWebServer = Some s \<and>
        h_produced s = [7, 8] \<and> h_seen s = [(7, {1}), (8, {1})] \<and> h_enq s 1 = [7, 8] \<and>
        prefix (map fst (h_seen s)) (h_produced s) \<and>
        subseq (h_enq s 1) (h_produced s) \<and>
        objs s 1 = Some \<lparr>send = \<lparr>buf = [7, 8], cap = 10\<rparr>\<rparr> \<and>
        h_enq s 1 = h_taken s 1 @ [7, 8] \<and>
        h_enq s 1 @ pending (notifysvc s) 1 =
          deliveries 1 (take 0 (h_seen s)) @ fst (h_seen s ! 0) #
          deliveries 1 (take (1 - Suc 0) (drop (Suc 0) (h_seen s))) @ fst (h_seen s ! 1) #
          deliveries 1 (drop (Suc 1) (h_seen s))"
proof -
  have "\<exists>s. run two_laps (StartWebServer :: nat state) = Some s \<and>
        h_produced s = [7, 8] \<and> h_seen s = [(7, {1}), (8, {1})] \<and> h_enq s 1 = [7, 8] \<and>
        objs s 1 = Some \<lparr>send = \<lparr>buf = [7, 8], cap = 10\<rparr>\<rparr>"
    by (simp add: eval_defs)
  then obtain s :: "nat state" where r: "run two_laps StartWebServer = Some s"
    and f: "h_produced s = [7, 8]" "h_seen s = [(7, {1}), (8, {1})]" "h_enq s 1 = [7, 8]"
      "objs s 1 = Some \<lparr>send = \<lparr>buf = [7, 8], cap = 10\<rparr>\<rparr>"
    by blast
  note c3 = C3_order_preserved[OF r, of 1]
  from c3 have a: "prefix (map fst (h_seen s)) (h_produced s)"
    and b: "subseq (h_enq s 1) (h_produced s)" by simp_all
  from c3 f(4) have c: "h_enq s 1 = h_taken s 1 @ [7, 8]" by simp
  have "(0::nat) < 1 \<and> 1 < length (h_seen s) \<and> 1 \<in> snd (h_seen s ! 0) \<and> 1 \<in> snd (h_seen s ! 1)"
    using f(2) by simp
  with c3 have d: "h_enq s 1 @ pending (notifysvc s) 1 =
          deliveries 1 (take 0 (h_seen s)) @ fst (h_seen s ! 0) #
          deliveries 1 (take (1 - Suc 0) (drop (Suc 0) (h_seen s))) @ fst (h_seen s ! 1) #
          deliveries 1 (drop (Suc 1) (h_seen s))"
    by blast
  from r f a b c d show ?thesis by blast
qed

subsection \<open>A subscriber whose queue is full\<close>

lemma blocked_step:
  "blocked_on s n c cs \<Longrightarrow>
     (case step a s of None \<Rightarrow> True
      | Some s' \<Rightarrow> blocked_on s' n c cs \<and> h_enq s' = h_enq s \<and> clients s' = clients s)"
  by (cases a) (auto simp add: blocked_on_def step_defs split: goal_splits)

lemma blocked_forever:
  "blocked_on s n c cs \<Longrightarrow> run bs s = Some s' \<Longrightarrow>
     blocked_on s' n c cs \<and> h_enq s' = h_enq s \<and> clients s' = clients s"
proof (induction bs arbitrary: s)
  case Nil
  then show ?case by simp
next
  case (Cons a bs)
  from Cons.prems(2) obtain t where t: "step a s = Some t" and r: "run bs t = Some s'"
    by (auto split: option.splits)
  from blocked_step[OF Cons.prems(1), of a] t
  have g: "blocked_on t n c cs" and e: "h_enq t = h_enq s" "clients t = clients s"
    by simp_all
  from Cons.IH[OF g r] e show ?case by simp
qed

text \<open>
  \<^bold>\<open>C4\<close>. The claim says that the send of line 222 never blocks the loop of
  \<open>serviceNotifyChannel\<close> for good while other clients wait for the notification.
  The code does block: when the fan-out reaches a client whose queue holds 10
  notifications and whose handler is itself blocked in the \<open>unregister\<close> send of line
  201, neither goroutine can ever move again. Every continuation of such a state
  leaves the hub in the same iteration of the same loop, the send and the unregister
  hand-off are both disabled, no queue receives anything, and the key set of
  \<open>clients\<close> does not change. The header of web.go (lines 16-23) promises "No
  blocking and no locking".
\<close>

theorem C4_fanout_blocked_forever:
  assumes "notifysvc s = HFanout n (c # cs)" "notifs s c = NUnregistering"
    "objs s c = Some obj" "chan_full (send obj)" "run bs s = Some s'"
  shows "notifysvc s' = HFanout n (c # cs) \<and> notifs s' c = NUnregistering \<and>
         step ClientSend s' = None \<and> step (Unregister c) s' = None \<and>
         h_enq s' = h_enq s \<and> clients s' = clients s"
proof -
  have "blocked_on s n c cs"
    using assms(1-4) by (simp add: blocked_on_def)
  from blocked_forever[OF this assms(5)]
  have b: "blocked_on s' n c cs" and e: "h_enq s' = h_enq s" "clients s' = clients s"
    by simp_all
  from b have "step ClientSend s' = None" "step (Unregister c) s' = None"
    by (auto simp add: blocked_on_def)
  with b e show ?thesis by (simp add: blocked_on_def)
qed

text \<open>
  Witness for C4: \<open>full_queue_deadlock\<close> reaches such a state from \<open>StartWebServer\<close>.
  Client 2 is registered when notification 18 is received, and in no continuation
  does it receive anything, does the hub leave the first iteration of its loop, or
  does the handler of client 1 leave its send.
\<close>

theorem C4_witness:
  "\<exists>s s'. run full_queue_deadlock StartWebServer = Some s \<and>
          notifysvc s = HFanout 18 [1, 2] \<and> notifs s 1 = NUnregistering \<and>
          objs s 1 = Some \<lparr>send = \<lparr>buf = [8, 9, 10, 11, 12, 13, 14, 15, 16, 17], cap = 10\<rparr>\<rparr> \<and>
          Mapping.keys (clients s) = {1, 2} \<and> notifs s 2 = NReceiving \<and>
          h_seen s = [(7, {1}), (8, {1}), (9, {1}), (10, {1}), (11, {1}), (12, {1}), (13, {1}),
                      (14, {1}), (15, {1}), (16, {1}), (17, {1}), (18, {1, 2})] \<and>
          h_enq s 2 = [] \<and>
          run [ReadMessage 0 (Some ''42''), TagSend 0, TagRecv, IncrementLapsReturn (Some 19),
               NotifySend] s = Some s' \<and>
          notifysvc s' = HFanout 18 [1, 2] \<and> step ClientSend s' = None \<and>
          step (Unregister 1) s' = None \<and> h_enq s' 2 = [] \<and>
          \<not> (\<exists>bs t. run (full_queue_deadlock @ bs) StartWebServer = Some t \<and>
                 (notifysvc t \<noteq> HFanout 18 [1, 2] \<or> h_enq t 2 \<noteq> [] \<or>
                  notifs t 1 \<noteq> NUnregistering))"
proof -
  have "\<exists>s s'. run full_queue_deadlock (StartWebServer :: nat state) = Some s \<and>
          notifysvc s = HFanout 18 [1, 2] \<and> notifs s 1 = NUnregistering \<and>
          objs s 1 = Some \<lparr>send = \<lparr>buf = [8, 9, 10, 11, 12, 13, 14, 15, 16, 17], cap = 10\<rparr>\<rparr> \<and>
          Mapping.keys (clients s) = {1, 2} \<and> notifs s 2 = NReceiving \<and>
          h_seen s = [(7, {1}), (8, {1}), (9, {1}), (10, {1}), (11, {1}), (12, {1}), (13, {1}),
                      (14, {1}), (15, {1}), (16, {1}), (17, {1}), (18, {1, 2})] \<and>
          h_enq s 2 = [] \<and>
          run [ReadMessage 0 (Some ''42''), TagSend 0, TagRecv, IncrementLapsReturn (Some 19),
               NotifySend] s = Some s'"
    by (simp add: eval_defs insert_commute)
  then obtain s s' :: "nat state" where r: "run full_queue_deadlock StartWebServer = Some s"
    and f: "notifysvc s = HFanout 18 [1, 2]" "notifs s 1 = NUnregistering"
      "objs s 1 = Some \<lparr>send = \<lparr>buf = [8, 9, 10, 11, 12, 13, 14, 15, 16, 17], cap = 10\<rparr>\<rparr>"
    and g: "Mapping.keys (clients s) = {1, 2}" "notifs s 2 = NReceiving"
      "h_seen s = [(7, {1}), (8, {1}), (9, {1}), (10, {1}), (11, {1}), (12, {1}), (13, {1}),
                      (14, {1}), (15, {1}), (16, {1}), (17, {1}), (18, {1, 2})]"
      "h_enq s 2 = []"
    and r': "run [ReadMessage 0 (Some ''42''), TagSend 0, TagRecv, IncrementLapsReturn (Some 19),
               NotifySend] s = Some s'"
    by blast
  have full: "chan_full (send \<lparr>send = \<lparr>buf = [8, 9, 10, 11, 12, 13, 14, 15, 16, 17 :: nat], cap = 10\<rparr>\<rparr>)"
    by (simp add: chan_full_def)
  note c4 = C4_fanout_blocked_forever[OF f full]
  note k = c4[OF r']
  have a: "notifysvc s' = HFanout 18 [1, 2]" "step ClientSend s' = None"
    "step (Unregister 1) s' = None"
    using k[THEN conjunct1] k[THEN conjunct2, THEN conjunct2, THEN conjunct1]
      k[THEN conjunct2, THEN conjunct2, THEN conjunct2, THEN conjunct1]
    by blast+
  have "h_enq s' = h_enq s"
    using k[THEN conjunct2, THEN conjunct2, THEN conjunct2, THEN conjunct2, THEN conjunct1] .
  with g(4) have a4: "h_enq s' 2 = []" by simp
  have "notifysvc t = HFanout 18 [1, 2] \<and> h_enq t 2 = [] \<and> notifs t 1 = NUnregistering"
    if "run (full_queue_deadlock @ bs) StartWebServer = Some t" for bs t
  proof -
    from that r have "run bs s = Some t" by (simp add: run_append)
    note kt = c4[OF this]
    from kt[THEN conjunct1] kt[THEN conjunct2, THEN conjunct1]
      kt[THEN conjunct2, THEN conjunct2, THEN conjunct2, THEN conjunct2, THEN conjunct1] g(4)
    show ?thesis by simp
  qed
  then have n: "\<not> (\<exists>bs t. run (full_queue_deadlock @ bs) StartWebServer = Some t \<and>
                 (notifysvc t \<noteq> HFanout 18 [1, 2] \<or> h_enq t 2 \<noteq> [] \<or>
                  notifs t 1 \<noteq> NUnregistering))"
    by force
  from r f g r' a a4 n show ?thesis
    by (intro exI[of _ s] exI[of _ s'] conjI)
qed

subsection \<open>Errors of one event\<close>

text \<open>
  \<^bold>\<open>C5\<close>, as amended. When \<open>IncrementLaps\<close> fails, \<open>serviceTagChannel\<close> is back in
  its \<open>select\<close> and nothing else has changed: nothing is sent on the notify channel,
  the tags channel is as it was, the identifier was passed to \<open>IncrementLaps\<close> once,
  and the next buffered identifier can be received. The claim also says that the
  failure is logged; line 175 has no \<open>else\<close> branch, and the log of web.go is
  unchanged.
\<close>

theorem C5_failed_increment_dropped:
  assumes "tagsvc s = TCalling t"
  shows "\<exists>s'. step (IncrementLapsReturn None) s = Some s' \<and>
              s' = s\<lparr>tagsvc := TSelect, h_returns := Suc (h_returns s)\<rparr> \<and>
              tagsvc s' = TSelect \<and> svr s' = svr s \<and> h_produced s' = h_produced s \<and>
              h_calls s' = h_calls s \<and> logged s' = logged s \<and>
              (\<forall>t' rest. buf (tags (svr s')) = t' # rest \<longrightarrow>
                 (\<exists>s''. step TagRecv s' = Some s'' \<and> tagsvc s'' = TCalling t'))"
  using assms by (auto simp add: step_defs)

text \<open>Witness for C5: the call for the identifier 42 fails.\<close>

theorem C5_witness:
  "\<exists>s. run (in_call) StartWebServer = Some s \<and> tagsvc s = TCalling 42 \<and>
        step (IncrementLapsReturn None) s =
          Some (s\<lparr>tagsvc := TSelect, h_returns := Suc (h_returns s)\<rparr>) \<and>
        buf (notify (svr s)) = [] \<and> h_produced s = []"
proof -
  have "\<exists>s. run (in_call) (StartWebServer :: nat state) = Some s \<and>
          tagsvc s = TCalling 42 \<and> buf (notify (svr s)) = [] \<and> h_produced s = []"
    by (simp add: eval_defs)
  then obtain s :: "nat state" where r: "run (in_call) StartWebServer = Some s"
    and f: "tagsvc s = TCalling 42" "buf (notify (svr s)) = []" "h_produced s = []"
    by blast
  from C5_failed_increment_dropped[OF f(1)]
  have "step (IncrementLapsReturn None) s =
          Some (s\<lparr>tagsvc := TSelect, h_returns := Suc (h_returns s)\<rparr>)"
    by blast
  with r f show ?thesis by blast
qed

text \<open>Counterexample to C5 as stated: the log is the same before and after the
  failed call, and \<open>serviceTagChannel\<close> is back in its \<open>select\<close>.\<close>

theorem C5_counterexample:
  "map_option logged (run (in_call) StartWebServer) =
     Some [''serviceNotifyChannel starting'', ''serviceTagChannel starting'',
           ''handleLaps starting''] \<and>
   map_option logged (run (in_call @ [IncrementLapsReturn None]) StartWebServer) =
     Some [''serviceNotifyChannel starting'', ''serviceTagChannel starting'',
           ''handleLaps starting''] \<and>
   map_option tagsvc (run (in_call @ [IncrementLapsReturn None]) StartWebServer) =
     Some TSelect"
  by (simp add: eval_defs)

text \<open>
  \<^bold>\<open>C7\<close>. A frame that \<open>strconv.Atoi\<close> rejects changes nothing but the log: the
  state after the read is the state before it with one line logged. Nothing is sent
  on the tags channel, no call of \<open>IncrementLaps\<close> begins, no notification is
  produced, and the handler is in \<open>ReadMessage\<close> again, where the next frame
  (or read error) is taken.
\<close>

theorem C7_malformed_frame_ignored:
  assumes "laps s h = LReading" "Atoi msg = None"
  shows "step (ReadMessage h (Some msg)) s = Some (s\<lparr>logged := logged s @ [''strconv.Atoi: '']\<rparr>) \<and>
         (\<forall>r. step (ReadMessage h r) (s\<lparr>logged := logged s @ [''strconv.Atoi: '']\<rparr>) \<noteq> None)"
  using assms by (auto simp add: step_defs split: option.splits)

text \<open>Witness for C7: the frame \<open>abc\<close>, after which the frame \<open>42\<close> is read.\<close>

theorem C7_witness:
  "\<exists>s. run [LapsUpgrade 0 True] (StartWebServer :: nat state) = Some s \<and>
        laps s 0 = LReading \<and> Atoi ''abc'' = None \<and>
        step (ReadMessage 0 (Some ''abc'')) s =
          Some (s\<lparr>logged := logged s @ [''strconv.Atoi: '']\<rparr>) \<and>
        step (ReadMessage 0 (Some ''42'')) (s\<lparr>logged := logged s @ [''strconv.Atoi: '']\<rparr>) \<noteq> None"
proof -
  have "\<exists>s. run [LapsUpgrade 0 True] (StartWebServer :: nat state) = Some s \<and>
          laps s 0 = LReading"
    by (simp add: eval_defs)
  then obtain s :: "nat state" where r: "run [LapsUpgrade 0 True] StartWebServer = Some s"
    and f: "laps s 0 = LReading"
    by blast
  have a: "Atoi ''abc'' = None" by (simp add: Atoi_def isDigit_def)
  note c7 = C7_malformed_frame_ignored[OF f a]
  from c7[THEN conjunct1] c7[THEN conjunct2, rule_format, of "Some ''42''"] r f a
  show ?thesis by blast
qed

subsection \<open>Membership\<close>

text \<open>
  \<^bold>\<open>C8\<close>. For every map \<open>m\<close>: deleting a key that is absent gives \<open>m\<close> back,
  deleting a key leaves every other key as it was, and inserting a key that is
  present (with the value \<open>true\<close>, the only value the code stores) gives \<open>m\<close> back;
  the key set is unchanged whatever the stored value was.
\<close>

theorem C8_unregister_absent_register_present:
  "(ur \<notin> Mapping.keys m \<longrightarrow> hub_unregister ur m = m) \<and>
   (c \<noteq> ur \<longrightarrow> Mapping.lookup (hub_unregister ur m) c = Mapping.lookup m c) \<and>
   Mapping.keys (hub_unregister ur m) = Mapping.keys m - {ur} \<and>
   (Mapping.lookup m r = Some True \<longrightarrow> hub_register r m = m) \<and>
   (r \<in> Mapping.keys m \<longrightarrow> Mapping.keys (hub_register r m) = Mapping.keys m)"
proof (intro conjI impI)
  show "hub_unregister ur m = m" if "ur \<notin> Mapping.keys m"
  proof (rule mapping_eqI)
    fix x
    show "Mapping.lookup (hub_unregister ur m) x = Mapping.lookup m x"
      using that by (cases "x = ur") (auto simp add: hub_unregister_def in_keys_lookup)
  qed
  show "Mapping.lookup (hub_unregister ur m) c = Mapping.lookup m c" if "c \<noteq> ur"
    using that by (simp add: hub_unregister_def)
  show "Mapping.keys (hub_unregister ur m) = Mapping.keys m - {ur}"
    by (simp add: hub_unregister_def)
  show "hub_register r m = m" if "Mapping.lookup m r = Some True"
  proof (rule mapping_eqI)
    fix x
    show "Mapping.lookup (hub_register r m) x = Mapping.lookup m x"
      using that by (cases "x = r") (auto simp add: hub_register_def)
  qed
  show "Mapping.keys (hub_register r m) = Mapping.keys m" if "r \<in> Mapping.keys m"
    using that by (auto simp add: hub_register_def)
qed

text \<open>Witness for C8: the map with the one key 1.\<close>

theorem C8_witness:
  "(2::nat) \<notin> Mapping.keys (Mapping.update 1 True Mapping.empty) \<and>
   hub_unregister 2 (Mapping.update 1 True Mapping.empty) = Mapping.update 1 True Mapping.empty \<and>
   Mapping.lookup (hub_unregister 2 (Mapping.update 1 True Mapping.empty)) 1 = Some True \<and>
   Mapping.lookup (Mapping.update 1 True Mapping.empty) 1 = Some True \<and>
   hub_register 1 (Mapping.update 1 True Mapping.empty) = Mapping.update 1 True Mapping.empty \<and>
   Mapping.keys (hub_register 1 (Mapping.update 1 True Mapping.empty)) = {1}"
  using C8_unregister_absent_register_present
          [of "2::nat" "Mapping.update (1::nat) True Mapping.empty" "1::nat" "1::nat"]
  by simp

lemma gone_step:
  "gone s c \<Longrightarrow>
     (case step a s of None \<Rightarrow> True | Some s' \<Rightarrow> gone s' c \<and> h_enq s' c = h_enq s c)"
  by (cases a) (auto simp add: gone_def step_defs in_keys_lookup split: goal_splits)

lemma gone_forever:
  "gone s c \<Longrightarrow> run bs s = Some s' \<Longrightarrow> gone s' c \<and> h_enq s' c = h_enq s c"
proof (induction bs arbitrary: s)
  case Nil
  then show ?case by simp
next
  case (Cons a bs)
  from Cons.prems(2) obtain t where t: "step a s = Some t" and r: "run bs t = Some s'"
    by (auto split: option.splits)
  from gone_step[OF Cons.prems(1), of a] t have g: "gone t c" and e: "h_enq t c = h_enq s c"
    by simp_all
  from Cons.IH[OF g r] e show ?case by simp
qed

lemma reach_returned_gone:
  assumes "run as StartWebServer = Some s" "notifs s c = NReturned"
  shows "gone s c"
  using reach_sink_ok[OF assms(1), of c] assms(2) by (auto simp add: sink_ok_def gone_def)

lemma done_writing_step:
  "notifs s c = NUnregistering \<or> notifs s c = NReturned \<Longrightarrow>
     (case step a s of None \<Rightarrow> True
      | Some s' \<Rightarrow> (notifs s' c = NUnregistering \<or> notifs s' c = NReturned) \<and>
                   h_taken s' c = h_taken s c)"
  by (cases a) (auto simp add: step_defs split: goal_splits)

lemma done_writing_forever:
  "notifs s c = NUnregistering \<or> notifs s c = NReturned \<Longrightarrow> run bs s = Some s' \<Longrightarrow>
     (notifs s' c = NUnregistering \<or> notifs s' c = NReturned) \<and> h_taken s' c = h_taken s c"
proof (induction bs arbitrary: s)
  case Nil
  then show ?case by simp
next
  case (Cons a bs)
  from Cons.prems(2) obtain t where t: "step a s = Some t" and r: "run bs t = Some s'"
    by (auto split: option.splits)
  from done_writing_step[OF Cons.prems(1), of a] t
  have g: "notifs t c = NUnregistering \<or> notifs t c = NReturned"
    and e: "h_taken t c = h_taken s c"
    by simp_all
  from Cons.IH[OF g r] e show ?case by simp
qed

lemma unregistering_step:
  "case step a s of None \<Rightarrow> True
   | Some s' \<Rightarrow>
       (notifs s c = NReturned \<longrightarrow> notifs s' c = NReturned \<and> a \<noteq> Unregister c) \<and>
       (a = Unregister c \<longrightarrow> notifs s c = NUnregistering \<and> notifs s' c = NReturned) \<and>
       (notifs s' c = NUnregistering \<longrightarrow> notifs s c = NUnregistering \<or> a = WriteJSON c False)"
  by (cases a) (auto simp add: step_defs split: goal_splits)

lemma unregister_trace:
  "run as StartWebServer = Some s \<Longrightarrow>
     (Unregister c \<in> set as \<longrightarrow> notifs s c = NReturned) \<and>
     count_list as (Unregister c) \<le> 1 \<and>
     (notifs s c = NUnregistering \<or> Unregister c \<in> set as \<longrightarrow> WriteJSON c False \<in> set as)"
proof (induction as arbitrary: s rule: rev_induct)
  case Nil
  then show ?case by (auto simp add: StartWebServer_def)
next
  case (snoc a as)
  from run_snoc[OF snoc.prems] obtain t
    where t: "run as StartWebServer = Some t" and st: "step a t = Some s"
    by blast
  note ih = snoc.IH[OF t]
  note u = unregistering_step[where a=a and s=t and c=c]
  show ?case
  proof (cases "a = Unregister c")
    case True
    with u st have pre: "notifs t c = NUnregistering" and post: "notifs s c = NReturned"
      by simp_all
    from pre ih have "Unregister c \<notin> set as" by auto
    then have "count_list as (Unregister c) = 0" by (simp add: count_list_0_iff)
    with True post pre ih show ?thesis by simp
  next
    case False
    with u st ih show ?thesis by auto
  qed
qed

lemma removal_step:
  "case step a s of None \<Rightarrow> True
   | Some s' \<Rightarrow> c \<in> Mapping.keys (clients s) \<and> c \<notin> Mapping.keys (clients s') \<longrightarrow>
       a = Unregister c \<or> notifysvc s = HStart"
  by (cases a) (auto simp add: step_defs split: goal_splits)

lemma hub_returned_step:
  "notifysvc s = HReturned \<and> notifs s c = NUnregistering \<and> c \<in> Mapping.keys (clients s) \<Longrightarrow>
     (case step a s of None \<Rightarrow> True
      | Some s' \<Rightarrow> notifysvc s' = HReturned \<and> notifs s' c = NUnregistering \<and>
                   c \<in> Mapping.keys (clients s'))"
  by (cases a) (auto simp add: step_defs split: goal_splits)

lemma hub_returned_forever:
  "notifysvc s = HReturned \<and> notifs s c = NUnregistering \<and> c \<in> Mapping.keys (clients s) \<Longrightarrow>
     run bs s = Some s' \<Longrightarrow>
     notifysvc s' = HReturned \<and> notifs s' c = NUnregistering \<and> c \<in> Mapping.keys (clients s')"
  by (rule run_pres[where P = "\<lambda>s. notifysvc s = HReturned \<and> notifs s c = NUnregistering \<and>
        c \<in> Mapping.keys (clients s)", OF hub_returned_step])

text \<open>
  \<^bold>\<open>C6\<close>, as amended. The claim says that after a failed write the handler sends
  exactly one Unregister and terminates, that the client then receives nothing more,
  and that this is the only way a client is removed.

  What holds after every schedule \<open>as\<close>, for every client \<open>c\<close>: a failed write takes the
  handler to the send of line 201 and leaves \<open>clients\<close> as it is; that send is a
  hand-off to the \<open>select\<close> of \<open>serviceNotifyChannel\<close>: when the hub is in its
  \<open>select\<close> the hand-off can be made, the handler has then returned and \<open>c\<close> is
  no longer a key, and when the hub is anywhere else the handler stays blocked. The
  schedule holds at most one Unregister of \<open>c\<close>, and none without a failed write of
  \<open>c\<close> before it. Once it holds one, in every continuation the handler stays
  returned, \<open>c\<close> stays out of \<open>clients\<close> and nothing is put on its queue. From the
  failed write on, the handler takes nothing more off its queue. A statement that
  removes a key \<open>c\<close> from \<open>clients\<close> is the Unregister of \<open>c\<close>. And when the hub
  has returned on its quit signal while the handler is blocked in the send, the
  handler stays blocked and \<open>c\<close> stays a key in every continuation.
\<close>

theorem C6_unregister_on_write_failure:
  assumes "run as StartWebServer = Some s"
  shows "(\<forall>n. notifs s c = NWriting n \<longrightarrow>
            (\<exists>s'. step (WriteJSON c False) s = Some s' \<and> notifs s' c = NUnregistering \<and>
                   clients s' = clients s)) \<and>
         (notifs s c = NUnregistering \<and> notifysvc s = HSelect \<longrightarrow>
            (\<exists>s'. step (Unregister c) s = Some s' \<and> notifs s' c = NReturned \<and>
                   c \<notin> Mapping.keys (clients s'))) \<and>
         (notifs s c = NUnregistering \<and> notifysvc s \<noteq> HSelect \<longrightarrow>
            step (Unregister c) s = None) \<and>
         count_list as (Unregister c) \<le> 1 \<and>
         (Unregister c \<in> set as \<longrightarrow> WriteJSON c False \<in> set as) \<and>
         (Unregister c \<in> set as \<longrightarrow>
            (\<forall>bs s'. run bs s = Some s' \<longrightarrow>
               notifs s' c = NReturned \<and> c \<notin> Mapping.keys (clients s') \<and>
               h_enq s' c = h_enq s c)) \<and>
         (notifs s c = NUnregistering \<or> notifs s c = NReturned \<longrightarrow>
            (\<forall>bs s'. run bs s = Some s' \<longrightarrow> h_taken s' c = h_taken s c)) \<and>
         (\<forall>a s'. step a s = Some s' \<and> c \<in> Mapping.keys (clients s) \<and>
                 c \<notin> Mapping.keys (clients s') \<longrightarrow> a = Unregister c) \<and>
         (notifs s c = NUnregistering \<and> notifysvc s = HReturned \<longrightarrow>
            (\<forall>bs s'. run bs s = Some s' \<longrightarrow>
               notifs s' c = NUnregistering \<and> c \<in> Mapping.keys (clients s')))"
proof -
  note tr = unregister_trace[OF assms, of c]
  have fail: "\<forall>n. notifs s c = NWriting n \<longrightarrow>
            (\<exists>s'. step (WriteJSON c False) s = Some s' \<and> notifs s' c = NUnregistering \<and>
                   clients s' = clients s)"
    by (simp add: step_defs)
  have handoff: "notifs s c = NUnregistering \<and> notifysvc s = HSelect \<longrightarrow>
            (\<exists>s'. step (Unregister c) s = Some s' \<and> notifs s' c = NReturned \<and>
                   c \<notin> Mapping.keys (clients s'))"
    by (simp add: step_defs)
  have blocked: "notifs s c = NUnregistering \<and> notifysvc s \<noteq> HSelect \<longrightarrow>
            step (Unregister c) s = None"
    by simp
  have once: "count_list as (Unregister c) \<le> 1"
    and cause: "Unregister c \<in> set as \<longrightarrow> WriteJSON c False \<in> set as"
    using tr by simp_all
  have after: "Unregister c \<in> set as \<longrightarrow>
            (\<forall>bs s'. run bs s = Some s' \<longrightarrow>
               notifs s' c = NReturned \<and> c \<notin> Mapping.keys (clients s') \<and>
               h_enq s' c = h_enq s c)"
  proof (intro impI allI)
    fix bs s'
    assume u: "Unregister c \<in> set as" and r: "run bs s = Some s'"
    from u tr have "notifs s c = NReturned" by simp
    then have "gone s c" using reach_returned_gone[OF assms] by simp
    from gone_forever[OF this r]
    show "notifs s' c = NReturned \<and> c \<notin> Mapping.keys (clients s') \<and> h_enq s' c = h_enq s c"
      by (simp add: gone_def in_keys_lookup)
  qed
  have silent: "notifs s c = NUnregistering \<or> notifs s c = NReturned \<longrightarrow>
            (\<forall>bs s'. run bs s = Some s' \<longrightarrow> h_taken s' c = h_taken s c)"
    using done_writing_forever[of s c] by blast
  have only: "\<forall>a s'. step a s = Some s' \<and> c \<in> Mapping.keys (clients s) \<and>
                 c \<notin> Mapping.keys (clients s') \<longrightarrow> a = Unregister c"
  proof (intro allI impI)
    fix a s'
    assume h: "step a s = Some s' \<and> c \<in> Mapping.keys (clients s) \<and>
                 c \<notin> Mapping.keys (clients s')"
    then have "a = Unregister c \<or> notifysvc s = HStart"
      using removal_step[where a=a and s=s and c=c] by simp
    moreover have "notifysvc s \<noteq> HStart"
      using h reach_sink_ok[OF assms, of c] by (auto simp add: sink_ok_def in_keys_lookup)
    ultimately show "a = Unregister c" by simp
  qed
  have stuck: "notifs s c = NUnregistering \<and> notifysvc s = HReturned \<longrightarrow>
            (\<forall>bs s'. run bs s = Some s' \<longrightarrow>
               notifs s' c = NUnregistering \<and> c \<in> Mapping.keys (clients s'))"
  proof (intro impI allI)
    fix bs s'
    assume h: "notifs s c = NUnregistering \<and> notifysvc s = HReturned"
      and r: "run bs s = Some s'"
    from h have "c \<in> Mapping.keys (clients s)"
      using reach_sink_ok[OF assms, of c] by (auto simp add: sink_ok_def in_keys_lookup)
    with h have "notifysvc s = HReturned \<and> notifs s c = NUnregistering \<and>
        c \<in> Mapping.keys (clients s)" by simp
    from hub_returned_forever[OF this r]
    show "notifs s' c = NUnregistering \<and> c \<in> Mapping.keys (clients s')" by simp
  qed
  from fail handoff blocked once cause after silent only stuck show ?thesis by blast
qed

text \<open>Witness for C6: display 1 fails to write notification 7 and unregisters; the
  next notification is fanned out to nobody.\<close>

theorem C6_witness:
  "\<exists>s0 s1 s2 s3.
      run (one_lap @ [ClientRecv 1]) StartWebServer = Some s0 \<and>
      notifs s0 1 = NWriting 7 \<and>
      step (WriteJSON 1 False) s0 = Some s1 \<and> notifs s1 1 = NUnregistering \<and>
      notifysvc s1 = HSelect \<and> 1 \<in> Mapping.keys (clients s1) \<and>
      step (Unregister 1) s1 = Some s2 \<and> notifs s2 1 = NReturned \<and>
      1 \<notin> Mapping.keys (clients s2) \<and>
      count_list (one_lap @ [ClientRecv 1, WriteJSON 1 False, Unregister 1]) (Unregister 1) = 1 \<and>
      run (lap 8 []) s2 = Some s3 \<and> h_seen s3 = [(7, {1}), (8, {})] \<and>
      notifs s3 1 = NReturned \<and> 1 \<notin> Mapping.keys (clients s3) \<and>
      h_enq s3 1 = [7] \<and> h_taken s3 1 = [7]"
proof -
  have "\<exists>s0 s1 s2 s3.
      run (one_lap @ [ClientRecv 1]) (StartWebServer :: nat state) = Some s0 \<and>
      notifs s0 1 = NWriting 7 \<and>
      step (WriteJSON 1 False) s0 = Some s1 \<and> notifysvc s1 = HSelect \<and>
      1 \<in> Mapping.keys (clients s1) \<and>
      step (Unregister 1) s1 = Some s2 \<and> h_enq s2 1 = [7] \<and> h_taken s2 1 = [7] \<and>
      run (lap 8 []) s2 = Some s3 \<and> h_seen s3 = [(7, {1}), (8, {})]"
    by (simp add: eval_defs)
  then obtain s0 s1 s2 s3 :: "nat state"
    where r0: "run (one_lap @ [ClientRecv 1]) StartWebServer = Some s0"
      and w: "notifs s0 1 = NWriting 7"
      and st1: "step (WriteJSON 1 False) s0 = Some s1"
      and h1: "notifysvc s1 = HSelect" "1 \<in> Mapping.keys (clients s1)"
      and st2: "step (Unregister 1) s1 = Some s2"
      and h2: "h_enq s2 1 = [7]" "h_taken s2 1 = [7]"
      and r3: "run (lap 8 []) s2 = Some s3"
      and h3: "h_seen s3 = [(7, {1}), (8, {})]"
    by blast
  have r1: "run (one_lap @ [ClientRecv 1, WriteJSON 1 False]) StartWebServer = Some s1"
    using r0 st1 run_append[of "one_lap @ [ClientRecv 1]" "[WriteJSON 1 False]" StartWebServer]
    by simp
  have r2: "run (one_lap @ [ClientRecv 1, WriteJSON 1 False, Unregister 1]) StartWebServer
              = Some s2"
    using r1 st2
      run_append[of "one_lap @ [ClientRecv 1, WriteJSON 1 False]" "[Unregister 1]" StartWebServer]
    by simp
  note c0 = C6_unregister_on_write_failure[OF r0, of 1]
  note c1 = C6_unregister_on_write_failure[OF r1, of 1]
  note c2 = C6_unregister_on_write_failure[OF r2, of 1]
  from c0[THEN conjunct1] w obtain t1
    where "step (WriteJSON 1 False) s0 = Some t1" "notifs t1 1 = NUnregistering"
    by blast
  with st1 have a1: "notifs s1 1 = NUnregistering" by simp
  from c1[THEN conjunct2, THEN conjunct1] a1 h1(1) obtain t2
    where "step (Unregister 1) s1 = Some t2" "notifs t2 1 = NReturned"
      "1 \<notin> Mapping.keys (clients t2)"
    by blast
  with st2 have a2: "notifs s2 1 = NReturned" "1 \<notin> Mapping.keys (clients s2)" by simp_all
  have u: "Unregister 1 \<in> set (one_lap @ [ClientRecv 1, WriteJSON 1 False, Unregister 1])"
    by simp
  have cnt: "count_list (one_lap @ [ClientRecv 1, WriteJSON 1 False, Unregister 1]) (Unregister 1)
               = 1"
    by (simp add: eval_defs)
  note after = c2[THEN conjunct2, THEN conjunct2, THEN conjunct2, THEN conjunct2,
                  THEN conjunct2, THEN conjunct1, rule_format, OF u r3]
  note silent = c2[THEN conjunct2, THEN conjunct2, THEN conjunct2, THEN conjunct2,
                   THEN conjunct2, THEN conjunct2, THEN conjunct1, rule_format, OF _ r3]
  from after have a3: "notifs s3 1 = NReturned" "1 \<notin> Mapping.keys (clients s3)"
    "h_enq s3 1 = h_enq s2 1"
    by simp_all
  from silent a2(1) have a4: "h_taken s3 1 = h_taken s2 1" by simp
  from r0 w st1 a1 h1 st2 a2 cnt r3 h3 a3 a4 h2 show ?thesis
    by (intro exI[of _ s0] exI[of _ s1] exI[of _ s2] exI[of _ s3]) simp
qed

text \<open>
  Counterexample to C6 as stated: in \<open>write_fails_after_quit\<close> the write fails after
  \<open>serviceNotifyChannel\<close> has returned on its quit signal. The handler is blocked in
  the send of line 201, and in no continuation does it return, is an Unregister of
  client 1 handed over, or is client 1 removed from \<open>clients\<close>.
\<close>

theorem C6_counterexample:
  "map_option (\<lambda>s. notifs s 1) (run write_fails_after_quit StartWebServer)
     = Some NUnregistering \<and>
   map_option notifysvc (run write_fails_after_quit StartWebServer) = Some HReturned \<and>
   \<not> (\<exists>bs s'. run (write_fails_after_quit @ bs) StartWebServer = Some s' \<and>
         (notifs s' 1 = NReturned \<or> Unregister 1 \<in> set bs \<or>
          1 \<notin> Mapping.keys (clients s')))"
proof -
  have "\<exists>s. run write_fails_after_quit (StartWebServer :: nat state) = Some s \<and>
          notifs s 1 = NUnregistering \<and> notifysvc s = HReturned \<and>
          1 \<in> Mapping.keys (clients s) \<and>
          Unregister 1 \<notin> set write_fails_after_quit"
    by (simp add: eval_defs)
  then obtain s :: "nat state" where r: "run write_fails_after_quit StartWebServer = Some s"
    and f: "notifs s 1 = NUnregistering" "notifysvc s = HReturned"
      "1 \<in> Mapping.keys (clients s)" "Unregister 1 \<notin> set write_fails_after_quit"
    by blast
  have "notifs s' 1 = NUnregistering \<and> 1 \<in> Mapping.keys (clients s') \<and> Unregister 1 \<notin> set bs"
    if "run (write_fails_after_quit @ bs) StartWebServer = Some s'" for bs s'
  proof -
    from that r have rb: "run bs s = Some s'" by (simp add: run_append)
    from hub_returned_forever[OF _ rb, of 1] f
    have k: "notifs s' 1 = NUnregistering" "1 \<in> Mapping.keys (clients s')" by simp_all
    from unregister_trace[OF that, of 1] k(1) have "Unregister 1 \<notin> set (write_fails_after_quit @ bs)"
      by auto
    with k show ?thesis by simp
  qed
  then have "\<not> (\<exists>bs s'. run (write_fails_after_quit @ bs) StartWebServer = Some s' \<and>
         (notifs s' 1 = NReturned \<or> Unregister 1 \<in> set bs \<or>
          1 \<notin> Mapping.keys (clients s')))"
    by force
  moreover have "map_option (\<lambda>s. notifs s 1) (run write_fails_after_quit StartWebServer)
     = Some NUnregistering" using r f by simp
  moreover have "map_option notifysvc (run write_fails_after_quit StartWebServer) = Some HReturned"
    using r f by simp
  ultimately show ?thesis by blast
qed

subsection \<open>Shutdown after a failed start\<close>

text \<open>
  \<^bold>\<open>C9\<close>. When \<open>ConnectToDB\<close> fails, \<open>serviceTagChannel\<close> returns (line 168),
  and in every continuation: it has received nothing from the tags channel (no call was
  ever begun, and everything the channel accepted is still buffered) and cannot; the
  main goroutine is still inside \<open>ListenAndServe\<close> or blocked in the send of line 268,
  which cannot complete; the send of line 269 and the sleep are not reached; and
  \<open>serviceNotifyChannel\<close> has neither received its quit nor returned.
\<close>

theorem C9_failed_connect_blocks_shutdown:
  assumes "run as StartWebServer = Some s0" "step (ConnectToDB False) s0 = Some s"
    "run bs s = Some s'"
  shows "tagsvc s = TFailed \<and> tagsvc s' = TFailed \<and>
         h_calls s' = [] \<and> h_sent s' = buf (tags (svr s')) \<and>
         step TagRecv s' = None \<and>
         (mainpc s' = MServing \<or> mainpc s' = MQuitTags) \<and>
         step QuitTags s' = None \<and> step QuitNotify s' = None \<and> step SleepDone s' = None \<and>
         notifysvc s' \<noteq> HReturned \<and> notifysvc s' \<noteq> HExiting"
proof -
  have f0: "tagsvc s = TFailed"
    using assms(2) by (auto simp add: step_defs split: if_splits)
  have f: "tagsvc s' = TFailed"
    using failed_forever[OF f0 assms(3)] .
  have r: "run (as @ ConnectToDB False # bs) StartWebServer = Some s'"
    using assms by (simp add: run_append)
  have sh: "shutdown_ok s'" using reach_shutdown_ok[OF r] .
  have fl: "flow_ok s'" using reach_flow_ok[OF r] .
  have c: "h_calls s' = []" using sh f by (simp add: shutdown_ok_def)
  have m: "mainpc s' = MServing \<or> mainpc s' = MQuitTags"
    using sh f by (cases "mainpc s'") (simp_all add: shutdown_ok_def)
  have "\<not> notify_quit (notifysvc s')"
    using sh m by (auto simp add: shutdown_ok_def)
  then have h: "notifysvc s' \<noteq> HReturned" "notifysvc s' \<noteq> HExiting"
    by auto
  have "h_sent s' = buf (tags (svr s'))" using fl c by (simp add: flow_ok_def)
  moreover have "step TagRecv s' = None" using f by simp
  moreover have "step QuitTags s' = None" using f by simp
  moreover have "step QuitNotify s' = None" using m by auto
  moreover have "step SleepDone s' = None" using m by auto
  ultimately show ?thesis using f0 f c m h by blast
qed

text \<open>Witness for C9: the connect fails, a reader submits a tag, the server is
  interrupted and \<open>ListenAndServe\<close> returns.\<close>

theorem C9_witness:
  "\<exists>s s'. step (ConnectToDB False) (StartWebServer :: nat state) = Some s \<and>
          run [LapsUpgrade 0 True, ReadMessage 0 (Some ''42''), TagSend 0, Interrupt,
               ListenAndServeReturn True, NotifySvcStart] s = Some s' \<and>
          tagsvc s' = TFailed \<and> h_calls s' = [] \<and> h_sent s' = [42] \<and>
          buf (tags (svr s')) = [42] \<and> mainpc s' = MQuitTags \<and>
          step QuitTags s' = None \<and> step QuitNotify s' = None \<and> step SleepDone s' = None \<and>
          notifysvc s' = HSelect"
proof -
  have "\<exists>s s'. step (ConnectToDB False) (StartWebServer :: nat state) = Some s \<and>
          run [LapsUpgrade 0 True, ReadMessage 0 (Some ''42''), TagSend 0, Interrupt,
               ListenAndServeReturn True, NotifySvcStart] s = Some s' \<and>
          h_sent s' = [42] \<and> mainpc s' = MQuitTags \<and> notifysvc s' = HSelect"
    by (simp add: eval_defs)
  then obtain s s' :: "nat state"
    where st: "step (ConnectToDB False) (StartWebServer :: nat state) = Some s"
    and r': "run [LapsUpgrade 0 True, ReadMessage 0 (Some ''42''), TagSend 0, Interrupt,
               ListenAndServeReturn True, NotifySvcStart] s = Some s'"
    and g: "h_sent s' = [42]" "mainpc s' = MQuitTags" "notifysvc s' = HSelect"
    by blast
  have r0: "run [] (StartWebServer :: nat state) = Some StartWebServer" by simp
  note c9 = C9_failed_connect_blocks_shutdown[OF r0 st r']
  from c9 g(1) have "buf (tags (svr s')) = [42]" by simp
  with c9 st r' g show ?thesis by blast
qed

subsection \<open>Capacities\<close>

text \<open>
  \<^bold>\<open>C10\<close>. After every schedule the tags channel, the notify channel and the queue
  of every allocated client have capacity 10 and hold at most 10 items, and a goroutine
  blocked in a send on one of them cannot complete the send exactly when 10 items are
  buffered. The register and unregister channels have capacity 0 and hold nothing:
  their sends complete only as a hand-off to \<open>serviceNotifyChannel\<close> waiting in its
  \<open>select\<close>.
\<close>

theorem C10_capacities:
  assumes "run as StartWebServer = Some s"
  shows "cap (tags (svr s)) = 10 \<and> cap (notify (svr s)) = 10 \<and>
         length (buf (tags (svr s))) \<le> 10 \<and> length (buf (notify (svr s))) \<le> 10 \<and>
         (\<forall>c obj. objs s c = Some obj \<longrightarrow>
            cap (send obj) = 10 \<and> length (buf (send obj)) \<le> 10) \<and>
         (\<forall>h t. laps s h = LSending t \<longrightarrow>
            (step (TagSend h) s = None) = (length (buf (tags (svr s))) = 10)) \<and>
         (\<forall>n. tagsvc s = TSending n \<longrightarrow>
            (step NotifySend s = None) = (length (buf (notify (svr s))) = 10)) \<and>
         (\<forall>n c cs obj. notifysvc s = HFanout n (c # cs) \<and> objs s c = Some obj \<longrightarrow>
            (step ClientSend s = None) = (length (buf (send obj)) = 10)) \<and>
         cap (register (svr s)) = 0 \<and> cap (unregister (svr s)) = 0 \<and>
         buf (register (svr s)) = [] \<and> buf (unregister (svr s)) = [] \<and>
         (\<forall>c. notifysvc s \<noteq> HSelect \<longrightarrow>
            step (Register c) s = None \<and> step (Unregister c) s = None)"
proof -
  have ch: "chans_ok s" using reach_chans_ok[OF assms] .
  have q: "\<And>c. queue_ok s c" using reach_queue_ok[OF assms] .
  have caps: "cap (tags (svr s)) = 10" "cap (notify (svr s)) = 10"
    "length (buf (tags (svr s))) \<le> 10" "length (buf (notify (svr s))) \<le> 10"
    "cap (register (svr s)) = 0" "cap (unregister (svr s)) = 0"
    "buf (register (svr s)) = []" "buf (unregister (svr s)) = []"
    using ch by (simp_all add: chans_ok_def)
  have objs: "\<forall>c obj. objs s c = Some obj \<longrightarrow>
            cap (send obj) = 10 \<and> length (buf (send obj)) \<le> 10"
    using q by (simp add: queue_ok_def)
  have tag: "\<forall>h t. laps s h = LSending t \<longrightarrow>
            (step (TagSend h) s = None) = (length (buf (tags (svr s))) = 10)"
    using caps by (auto simp add: chan_full_def)
  have ntf: "\<forall>n. tagsvc s = TSending n \<longrightarrow>
            (step NotifySend s = None) = (length (buf (notify (svr s))) = 10)"
    using caps by (auto simp add: chan_full_def)
  have cl: "\<forall>n c cs obj. notifysvc s = HFanout n (c # cs) \<and> objs s c = Some obj \<longrightarrow>
            (step ClientSend s = None) = (length (buf (send obj)) = 10)"
  proof (intro allI impI)
    fix n c cs obj
    assume h: "notifysvc s = HFanout n (c # cs) \<and> objs s c = Some obj"
    then have "cap (send obj) = 10" "length (buf (send obj)) \<le> 10"
      using objs by auto
    then show "(step ClientSend s = None) = (length (buf (send obj)) = 10)"
      using h by (auto simp add: chan_full_def)
  qed
  have hand: "\<forall>c. notifysvc s \<noteq> HSelect \<longrightarrow>
            step (Register c) s = None \<and> step (Unregister c) s = None"
    by simp
  from caps objs tag ntf cl hand show ?thesis by blast
qed

text \<open>Witness for C10: after \<open>ten_tags\<close> the tags channel holds 10 identifiers and
  the eleventh send of reader 0 cannot complete.\<close>

theorem C10_witness:
  "\<exists>s. run ten_tags StartWebServer = Some s \<and>
        cap (tags (svr s)) = 10 \<and> cap (notify (svr s)) = 10 \<and>
        cap (register (svr s)) = 0 \<and> cap (unregister (svr s)) = 0 \<and>
        laps s 0 = LSending 42 \<and> length (buf (tags (svr s))) = 10 \<and>
        step (TagSend 0) s = None \<and> notifysvc s = HStart \<and> step (Register 1) s = None"
proof -
  have "\<exists>s. run ten_tags (StartWebServer :: nat state) = Some s \<and>
          laps s 0 = LSending 42 \<and> length (buf (tags (svr s))) = 10 \<and> notifysvc s = HStart"
    by (simp add: eval_defs ten_tags_def read_send_def)
  then obtain s :: "nat state" where r: "run ten_tags StartWebServer = Some s"
    and f: "laps s 0 = LSending 42" "length (buf (tags (svr s))) = 10" "notifysvc s = HStart"
    by blast
  note c10 = C10_capacities[OF r]
  from c10 f have "step (TagSend 0) s = None" by blast
  moreover from c10 f have "step (Register 1) s = None" by simp
  ultimately show ?thesis using c10 r f by blast
qed

end
